theory Spec2Isabelle
  imports Main "HOL-Library.Word" "HOL-Library.Signed_Division"
begin

unbundle bit_operations_syntax

section \<open>Platform primitives and data model\<close>

text \<open>
  Modelled from the spec: the pin numbers behind \<open>GET_PIN\<close> come from the board header,
  which is not part of the repository. The seven pins of \<open>main.c\<close> are taken as seven
  distinct names, as the schematic in the file's header comment gives them.
\<close>

datatype pin = LED1_PIN | LED2_PIN | LED3_PIN | LED4_PIN | KEY1_PIN | KEY2_PIN | KEY3_PIN

datatype pin_mode = PIN_MODE_OUTPUT | PIN_MODE_INPUT_PULLUP

text \<open>The two thread entry functions, used as the identity of the running thread.\<close>

datatype thread = LedThread | KeyThread

text \<open>The arguments of one \<open>rt_thread_create\<close> call: name, entry, stack size, priority, tick.\<close>

record rt_thread =
  thread_name :: string
  thread_entry :: thread
  stack_size :: nat
  priority :: nat
  tick :: nat

text \<open>
  The machine state. \<open>flow_index\<close> is the static \<open>index\<close> of \<open>led_mode_flow_step\<close>,
  \<open>binary_value\<close> the static \<open>value\<close> of \<open>led_mode_binary_step\<close>, and the three
  \<open>key_last\<close> fields are the locals of \<open>key_thread_entry\<close>. \<open>pin_level\<close> holds the level
  last written to each pin, \<open>slept\<close> the milliseconds each thread has spent in
  \<open>rt_thread_mdelay\<close>, \<open>console\<close> the lines printed by \<open>rt_kprintf\<close>, oldest first.
\<close>

record machine =
  g_led_mode :: "8 word"
  flow_index :: int
  binary_value :: "8 word"
  key1_last :: int
  key2_last :: int
  key3_last :: int
  pin_cfg :: "pin \<Rightarrow> pin_mode option"
  pin_level :: "pin \<Rightarrow> bool"
  slept :: "thread \<Rightarrow> nat"
  console :: "string list"
  created :: "rt_thread list"
  started :: "rt_thread list"

definition LED_MODE_NONE :: "8 word" where
  "LED_MODE_NONE = 0"

definition LED_MODE_FLOW :: "8 word" where
  "LED_MODE_FLOW = 1"

definition LED_MODE_BINARY :: "8 word" where
  "LED_MODE_BINARY = 2"

text \<open>Modelled from the spec: \<open>RT_EOK\<close>, the success status of the kernel headers.\<close>

definition RT_EOK :: int where
  "RT_EOK = 0"

definition led_pins :: "pin list" where
  "led_pins = [LED1_PIN, LED2_PIN, LED3_PIN, LED4_PIN]"

text \<open>
  Modelled from the spec: the pin layer, the delay, the console and the thread primitives
  are the platform's. A pin write stores a boolean level, a delay is charged to the calling
  thread, a print appends one line, thread creation records the request and yields a handle
  or null as the environment \<open>ok\<close> decides, startup records the handle.
\<close>

definition rt_pin_mode :: "pin \<Rightarrow> pin_mode \<Rightarrow> machine \<Rightarrow> machine" where
  "rt_pin_mode p md m = m\<lparr>pin_cfg := (pin_cfg m)(p \<mapsto> md)\<rparr>"

definition rt_pin_write :: "pin \<Rightarrow> bool \<Rightarrow> machine \<Rightarrow> machine" where
  "rt_pin_write p lv m = m\<lparr>pin_level := (pin_level m)(p := lv)\<rparr>"

definition rt_thread_mdelay :: "thread \<Rightarrow> nat \<Rightarrow> machine \<Rightarrow> machine" where
  "rt_thread_mdelay t ms m = m\<lparr>slept := (slept m)(t := slept m t + ms)\<rparr>"

definition rt_kprintf :: "string \<Rightarrow> machine \<Rightarrow> machine" where
  "rt_kprintf s m = m\<lparr>console := console m @ [s]\<rparr>"

definition rt_thread_create ::
  "(thread \<Rightarrow> bool) \<Rightarrow> string \<Rightarrow> thread \<Rightarrow> nat \<Rightarrow> nat \<Rightarrow> nat \<Rightarrow> machine
     \<Rightarrow> rt_thread option \<times> machine" where
  "rt_thread_create ok nm en stk prio tk m =
     (let t = \<lparr>thread_name = nm, thread_entry = en, stack_size = stk, priority = prio, tick = tk\<rparr>
      in (if ok en then Some t else None, m\<lparr>created := created m @ [t]\<rparr>))"

definition rt_thread_startup :: "rt_thread \<Rightarrow> machine \<Rightarrow> machine" where
  "rt_thread_startup t m = m\<lparr>started := started m @ [t]\<rparr>"

text \<open>The three diagnostic lines, as the bytes of the UTF-8 source file.\<close>

definition msg_flow :: string where
  "msg_flow = ''Mode: '' @
     [CHR 0xE6, CHR 0x99, CHR 0xAE, CHR 0xE9, CHR 0x80, CHR 0x9A, CHR 0xE6, CHR 0xB5, CHR 0x81,
      CHR 0xE6, CHR 0xB0, CHR 0xB4, CHR 0xE7, CHR 0x81, CHR 0xAF, CHR 0x0D, CHR 0x0A]"

definition msg_binary :: string where
  "msg_binary = ''Mode: '' @
     [CHR 0xE4, CHR 0xBA, CHR 0x8C, CHR 0xE8, CHR 0xBF, CHR 0x9B, CHR 0xE5, CHR 0x88, CHR 0xB6,
      CHR 0xE8, CHR 0xAE, CHR 0xA1, CHR 0xE6, CHR 0x95, CHR 0xB0, CHR 0x0D, CHR 0x0A]"

definition msg_none :: string where
  "msg_none = ''Mode: '' @
     [CHR 0xE5, CHR 0x85, CHR 0xA8, CHR 0xE7, CHR 0x81, CHR 0xAD, CHR 0x0D, CHR 0x0A]"

section \<open>The LED thread\<close>

text \<open>\<open>leds_all_off\<close>: the loop \<open>for (i = 0; i < 4; i++)\<close> writing low to \<open>led_pins[i]\<close>.\<close>

function leds_all_off_from :: "nat \<Rightarrow> machine \<Rightarrow> machine" where
  "leds_all_off_from i m =
     (if i < 4 then leds_all_off_from (i + 1) (rt_pin_write (led_pins ! i) False m) else m)"
  by pat_completeness auto
termination
  by (relation "measure (\<lambda>(i, m). 4 - i)") auto

declare leds_all_off_from.simps [simp del]

definition leds_all_off :: "machine \<Rightarrow> machine" where
  "leds_all_off m = leds_all_off_from 0 m"

text \<open>
  \<open>led_mode_flow_step\<close>. The read of \<open>led_pins[index]\<close> is defined in C only for an index
  in the array; outside it the step has no result. \<open>%\<close> is C's truncating remainder.
\<close>

definition led_mode_flow_step :: "machine \<Rightarrow> machine option" where
  "led_mode_flow_step m =
     (let m1 = leds_all_off m in
      if 0 \<le> flow_index m1 \<and> flow_index m1 < 4 then
        (let m2 = rt_pin_write (led_pins ! nat (flow_index m1)) True m1;
             m3 = rt_thread_mdelay LedThread 150 m2
         in Some (m3\<lparr>flow_index := (flow_index m3 + 1) smod 4\<rparr>))
      else None)"

text \<open>
  \<open>led_mode_binary_step\<close>: the loop tests \<open>value & (1 << i)\<close> on the counter promoted to
  a 32-bit int, then the counter is incremented as an 8-bit value, then the thread sleeps.
\<close>

function binary_show_from :: "nat \<Rightarrow> machine \<Rightarrow> machine" where
  "binary_show_from i m =
     (if i < 4 then
        binary_show_from (i + 1)
          (if (ucast (binary_value m) :: 32 word) AND push_bit i 1 \<noteq> 0
           then rt_pin_write (led_pins ! i) True m
           else rt_pin_write (led_pins ! i) False m)
      else m)"
  by pat_completeness auto
termination
  by (relation "measure (\<lambda>(i, m). 4 - i)") auto

declare binary_show_from.simps [simp del]

definition led_mode_binary_step :: "machine \<Rightarrow> machine" where
  "led_mode_binary_step m =
     (let m1 = binary_show_from 0 m;
          m2 = m1\<lparr>binary_value := binary_value m1 + 1\<rparr>
      in rt_thread_mdelay LedThread 200 m2)"

text \<open>One iteration of the \<open>while (1)\<close> loop of \<open>led_thread_entry\<close>.\<close>

definition led_thread_iter :: "machine \<Rightarrow> machine option" where
  "led_thread_iter m =
     (let mode = g_led_mode m in
      if mode = LED_MODE_FLOW then led_mode_flow_step m
      else if mode = LED_MODE_BINARY then Some (led_mode_binary_step m)
      else Some (rt_thread_mdelay LedThread 50 (leds_all_off m)))"

section \<open>The key thread\<close>

text \<open>
  What \<open>rt_pin_read\<close> returns during one iteration of the scan loop: the three samples
  at the top of the iteration, and for each key the second sample taken 20 ms after a
  falling edge (read only when that key's edge test succeeds).
\<close>

record samples =
  k1 :: int
  k2 :: int
  k3 :: int
  again1 :: int
  again2 :: int
  again3 :: int

definition key1_check :: "samples \<Rightarrow> machine \<Rightarrow> machine" where
  "key1_check s m =
     (if key1_last m = 1 \<and> k1 s = 0 then
        (let m1 = rt_thread_mdelay KeyThread 20 m in
         if again1 s = 0 then rt_kprintf msg_flow (m1\<lparr>g_led_mode := LED_MODE_FLOW\<rparr>) else m1)
      else m)"

definition key2_check :: "samples \<Rightarrow> machine \<Rightarrow> machine" where
  "key2_check s m =
     (if key2_last m = 1 \<and> k2 s = 0 then
        (let m1 = rt_thread_mdelay KeyThread 20 m in
         if again2 s = 0 then rt_kprintf msg_binary (m1\<lparr>g_led_mode := LED_MODE_BINARY\<rparr>) else m1)
      else m)"

definition key3_check :: "samples \<Rightarrow> machine \<Rightarrow> machine" where
  "key3_check s m =
     (if key3_last m = 1 \<and> k3 s = 0 then
        (let m1 = rt_thread_mdelay KeyThread 20 m in
         if again3 s = 0 then rt_kprintf msg_none (m1\<lparr>g_led_mode := LED_MODE_NONE\<rparr>) else m1)
      else m)"

text \<open>The end of the loop body: the samples become the previous samples, then 10 ms of sleep.\<close>

definition key_end :: "samples \<Rightarrow> machine \<Rightarrow> machine" where
  "key_end s m =
     rt_thread_mdelay KeyThread 10 (m\<lparr>key1_last := k1 s, key2_last := k2 s, key3_last := k3 s\<rparr>)"

text \<open>One iteration of the \<open>while (1)\<close> loop of \<open>key_thread_entry\<close>.\<close>

definition key_thread_iter :: "samples \<Rightarrow> machine \<Rightarrow> machine" where
  "key_thread_iter s m =
     (let m1 = key1_check s m;
          m2 = key2_check s m1;
          m3 = key3_check s m2
      in key_end s m3)"

section \<open>Start-up\<close>

text \<open>
  The state at reset: the statics hold their initialisers, the key thread's locals the
  value 1 they get at thread entry, the pins whatever levels \<open>lv\<close> the hardware has.
\<close>

definition reset_state :: "(pin \<Rightarrow> bool) \<Rightarrow> machine" where
  "reset_state lv =
     \<lparr>g_led_mode = LED_MODE_NONE, flow_index = 0, binary_value = 0,
      key1_last = 1, key2_last = 1, key3_last = 1,
      pin_cfg = (\<lambda>_. None), pin_level = lv, slept = (\<lambda>_. 0),
      console = [], created = [], started = []\<rparr>"

text \<open>\<open>main\<close>; \<open>ok\<close> tells for each thread whether its creation yields a handle.\<close>

definition main :: "(thread \<Rightarrow> bool) \<Rightarrow> machine \<Rightarrow> int \<times> machine" where
  "main ok m =
     (let m1 = rt_pin_mode LED1_PIN PIN_MODE_OUTPUT m;
          m2 = rt_pin_mode LED2_PIN PIN_MODE_OUTPUT m1;
          m3 = rt_pin_mode LED3_PIN PIN_MODE_OUTPUT m2;
          m4 = rt_pin_mode LED4_PIN PIN_MODE_OUTPUT m3;
          m5 = leds_all_off m4;
          m6 = rt_pin_mode KEY1_PIN PIN_MODE_INPUT_PULLUP m5;
          m7 = rt_pin_mode KEY2_PIN PIN_MODE_INPUT_PULLUP m6;
          m8 = rt_pin_mode KEY3_PIN PIN_MODE_INPUT_PULLUP m7;
          (led_tid, m9) = rt_thread_create ok ''led'' LedThread 1024 5 10 m8;
          m10 = (case led_tid of Some t \<Rightarrow> rt_thread_startup t m9 | None \<Rightarrow> m9);
          (key_tid, m11) = rt_thread_create ok ''key'' KeyThread 1024 6 10 m10;
          m12 = (case key_tid of Some t \<Rightarrow> rt_thread_startup t m11 | None \<Rightarrow> m11)
      in (RT_EOK, m12))"

section \<open>Observations and runs\<close>

text \<open>The levels of the four outputs in index order.\<close>

definition led_levels :: "machine \<Rightarrow> bool list" where
  "led_levels m = map (pin_level m) led_pins"

text \<open>The four outputs read as a 4-bit unsigned value, output \<open>i\<close> being bit \<open>i\<close>.\<close>

definition pattern :: "machine \<Rightarrow> nat" where
  "pattern m = horner_sum of_bool 2 (led_levels m)"

text \<open>The indices of the outputs that are high.\<close>

definition lit :: "machine \<Rightarrow> nat list" where
  "lit m = filter (\<lambda>i. led_levels m ! i) [0..<4]"

definition all_low :: "machine \<Rightarrow> bool" where
  "all_low m = (led_levels m = [False, False, False, False])"

text \<open>Consecutive invocations of the two step functions.\<close>

fun flow_steps :: "nat \<Rightarrow> machine \<Rightarrow> machine option" where
  "flow_steps 0 m = Some m"
| "flow_steps (Suc n) m = Option.bind (led_mode_flow_step m) (flow_steps n)"

fun binary_steps :: "nat \<Rightarrow> machine \<Rightarrow> machine" where
  "binary_steps 0 m = m"
| "binary_steps (Suc n) m = binary_steps n (led_mode_binary_step m)"

text \<open>The three keys, the mode and the diagnostic line of each, and each key's own check.\<close>

datatype button = KEY1 | KEY2 | KEY3

fun mode_of_button :: "button \<Rightarrow> 8 word" where
  "mode_of_button KEY1 = LED_MODE_FLOW"
| "mode_of_button KEY2 = LED_MODE_BINARY"
| "mode_of_button KEY3 = LED_MODE_NONE"

fun msg_of_button :: "button \<Rightarrow> string" where
  "msg_of_button KEY1 = msg_flow"
| "msg_of_button KEY2 = msg_binary"
| "msg_of_button KEY3 = msg_none"

fun button_check :: "button \<Rightarrow> samples \<Rightarrow> machine \<Rightarrow> machine" where
  "button_check KEY1 = key1_check"
| "button_check KEY2 = key2_check"
| "button_check KEY3 = key3_check"

text \<open>
  The two threads interleaved. The LED thread reads the mode once in an iteration and
  shares nothing else with the key thread, so one iteration of it is one event. The key
  thread sleeps inside an iteration, so each of its three checks and the end of its loop
  body is an event of its own, and LED iterations can fall between them. A schedule is any
  list of events; \<open>scan s\<close> is one whole iteration of the key thread.
\<close>

datatype event = LedIter | KeyCheck button samples | KeyEnd samples

fun sys_step :: "event \<Rightarrow> machine \<Rightarrow> machine option" where
  "sys_step LedIter m = led_thread_iter m"
| "sys_step (KeyCheck b s) m = Some (button_check b s m)"
| "sys_step (KeyEnd s) m = Some (key_end s m)"

fun run :: "event list \<Rightarrow> machine \<Rightarrow> machine option" where
  "run [] m = Some m"
| "run (e # es) m = Option.bind (sys_step e m) (run es)"

definition scan :: "samples \<Rightarrow> event list" where
  "scan s = [KeyCheck KEY1 s, KeyCheck KEY2 s, KeyCheck KEY3 s, KeyEnd s]"

text \<open>
  A confirmed edge of a key: its previous sample was 1, its sample is 0 and its second
  sample is 0 again. A glitch: a falling edge whose second sample is not low.
\<close>

definition falling_edge :: "int \<Rightarrow> int \<Rightarrow> bool" where
  "falling_edge prev cur = (prev = 1 \<and> cur = 0)"

fun confirmed :: "button \<Rightarrow> samples \<Rightarrow> machine \<Rightarrow> bool" where
  "confirmed KEY1 s m = (falling_edge (key1_last m) (k1 s) \<and> again1 s = 0)"
| "confirmed KEY2 s m = (falling_edge (key2_last m) (k2 s) \<and> again2 s = 0)"
| "confirmed KEY3 s m = (falling_edge (key3_last m) (k3 s) \<and> again3 s = 0)"

fun glitch :: "button \<Rightarrow> samples \<Rightarrow> machine \<Rightarrow> bool" where
  "glitch KEY1 s m = (falling_edge (key1_last m) (k1 s) \<and> again1 s \<noteq> 0)"
| "glitch KEY2 s m = (falling_edge (key2_last m) (k2 s) \<and> again2 s \<noteq> 0)"
| "glitch KEY3 s m = (falling_edge (key3_last m) (k3 s) \<and> again3 s \<noteq> 0)"

text \<open>The confirmed edges of one scan iteration started in \<open>m\<close>, in program order.\<close>

definition confirmed_edges :: "samples \<Rightarrow> machine \<Rightarrow> button list" where
  "confirmed_edges s m = filter (\<lambda>b. confirmed b s m) [KEY1, KEY2, KEY3]"

text \<open>The confirmed edges of a run, in the order of the schedule.\<close>

fun run_edges :: "event list \<Rightarrow> machine \<Rightarrow> button list" where
  "run_edges [] m = []"
| "run_edges (LedIter # es) m =
     (case led_thread_iter m of Some m' \<Rightarrow> run_edges es m' | None \<Rightarrow> [])"
| "run_edges (KeyCheck b s # es) m =
     (if confirmed b s m then [b] else []) @ run_edges es (button_check b s m)"
| "run_edges (KeyEnd s # es) m = run_edges es (key_end s m)"

text \<open>Last write wins: the mode of the last confirmed edge, the old mode when there is none.\<close>

definition last_wins :: "8 word \<Rightarrow> button list \<Rightarrow> 8 word" where
  "last_wins old bs = (if bs = [] then old else mode_of_button (last bs))"

text \<open>The mode each LED iteration of a run dispatches on, in order.\<close>

fun run_modes :: "event list \<Rightarrow> machine \<Rightarrow> 8 word list" where
  "run_modes [] m = []"
| "run_modes (LedIter # es) m =
     g_led_mode m # (case led_thread_iter m of Some m' \<Rightarrow> run_modes es m' | None \<Rightarrow> [])"
| "run_modes (KeyCheck b s # es) m = run_modes es (button_check b s m)"
| "run_modes (KeyEnd s # es) m = run_modes es (key_end s m)"

definition mode_valid :: "machine \<Rightarrow> bool" where
  "mode_valid m = (g_led_mode m \<in> {LED_MODE_NONE, LED_MODE_FLOW, LED_MODE_BINARY})"

definition index_ok :: "machine \<Rightarrow> bool" where
  "index_ok m = (0 \<le> flow_index m \<and> flow_index m < 4)"

text \<open>The state in which a key's check runs inside a scan iteration started in \<open>m\<close>.\<close>

fun before_check :: "button \<Rightarrow> samples \<Rightarrow> machine \<Rightarrow> machine" where
  "before_check KEY1 s m = m"
| "before_check KEY2 s m = key1_check s m"
| "before_check KEY3 s m = key2_check s (key1_check s m)"

text \<open>Concrete inputs: a reset with every pin low, one with every pin high, and samples with every key released.\<close>

definition reset_low :: machine where
  "reset_low = reset_state (\<lambda>_. False)"

definition reset_high :: machine where
  "reset_high = reset_state (\<lambda>_. True)"

definition released :: samples where
  "released = \<lparr>k1 = 1, k2 = 1, k3 = 1, again1 = 1, again2 = 1, again3 = 1\<rparr>"

text \<open>
  Samples of one scan: KEY1 pressed and held, KEY2 pressed and held, both pressed and held,
  KEY1 bouncing back, KEY1 bouncing while KEY2 is held.
\<close>

definition press1 :: samples where
  "press1 = \<lparr>k1 = 0, k2 = 1, k3 = 1, again1 = 0, again2 = 1, again3 = 1\<rparr>"

definition press2 :: samples where
  "press2 = \<lparr>k1 = 1, k2 = 0, k3 = 1, again1 = 1, again2 = 0, again3 = 1\<rparr>"

definition press12 :: samples where
  "press12 = \<lparr>k1 = 0, k2 = 0, k3 = 1, again1 = 0, again2 = 0, again3 = 1\<rparr>"

definition bounce1 :: samples where
  "bounce1 = \<lparr>k1 = 0, k2 = 1, k3 = 1, again1 = 1, again2 = 1, again3 = 1\<rparr>"

definition bounce1_press2 :: samples where
  "bounce1_press2 = \<lparr>k1 = 0, k2 = 0, k3 = 1, again1 = 1, again2 = 0, again3 = 1\<rparr>"

section \<open>Closed forms of the step functions\<close>

lemmas platform_defs = rt_pin_mode_def rt_pin_write_def rt_thread_mdelay_def rt_kprintf_def

lemmas mode_defs = LED_MODE_NONE_def LED_MODE_FLOW_def LED_MODE_BINARY_def

lemma mode_none_other: "LED_MODE_NONE \<noteq> LED_MODE_FLOW" "LED_MODE_NONE \<noteq> LED_MODE_BINARY"
  "LED_MODE_FLOW \<noteq> LED_MODE_BINARY" "LED_MODE_FLOW \<noteq> LED_MODE_NONE"
  "LED_MODE_BINARY \<noteq> LED_MODE_NONE" "LED_MODE_BINARY \<noteq> LED_MODE_FLOW"
  by (simp_all add: mode_defs)

lemma bit_test: "i < 8 \<Longrightarrow> ((ucast (v :: 8 word) :: 32 word) AND push_bit i 1 \<noteq> 0) = bit v i"
  by (simp add: and_exp_eq_0_iff_not_bit bit_ucast_iff)

lemma leds_all_off_eq:
  "leds_all_off m = m\<lparr>pin_level := (pin_level m)(LED1_PIN := False, LED2_PIN := False, LED3_PIN := False, LED4_PIN := False)\<rparr>"
  by (simp add: leds_all_off_def leds_all_off_from.simps led_pins_def rt_pin_write_def)

lemma binary_show_from_bit:
  "binary_show_from i m =
     (if i < 4 then binary_show_from (i + 1) (rt_pin_write (led_pins ! i) (bit (binary_value m) i) m)
      else m)"
proof (cases "i < 4")
  case True
  then have "((ucast (binary_value m) :: 32 word) AND push_bit i 1 \<noteq> 0) = bit (binary_value m) i"
    by (intro bit_test) simp
  then show ?thesis
    by (subst binary_show_from.simps) (simp del: push_bit_of_1)
next
  case False
  then show ?thesis by (subst binary_show_from.simps) simp
qed

lemma binary_show_eq:
  "binary_show_from 0 m = m\<lparr>pin_level := (pin_level m)(LED1_PIN := bit (binary_value m) 0, LED2_PIN := bit (binary_value m) 1, LED3_PIN := bit (binary_value m) 2, LED4_PIN := bit (binary_value m) 3)\<rparr>"
  by (simp add: binary_show_from_bit led_pins_def rt_pin_write_def numeral_2_eq_2 numeral_3_eq_3)

lemma led_levels_all_off [simp]: "led_levels (leds_all_off m) = [False, False, False, False]"
  by (simp add: led_levels_def led_pins_def leds_all_off_eq)

lemma binary_step_eq:
  "led_mode_binary_step m =
     m\<lparr>pin_level := (pin_level m)(LED1_PIN := bit (binary_value m) 0,
          LED2_PIN := bit (binary_value m) 1, LED3_PIN := bit (binary_value m) 2,
          LED4_PIN := bit (binary_value m) 3),
       binary_value := binary_value m + 1,
       slept := (slept m)(LedThread := slept m LedThread + 200)\<rparr>"
  by (simp add: led_mode_binary_step_def binary_show_eq rt_thread_mdelay_def)

lemma led_levels_binary_step:
  "led_levels (led_mode_binary_step m) = map (bit (binary_value m)) [0..<4]"
  by (simp add: binary_step_eq led_levels_def led_pins_def upt_rec numeral_2_eq_2 numeral_3_eq_3)

lemma pattern_binary_step: "pattern (led_mode_binary_step m) = unat (binary_value m) mod 16"
proof -
  have "bit (unat (binary_value m)) = bit (binary_value m)"
    by (rule ext) (simp add: bit_unsigned_iff)
  then have "pattern (led_mode_binary_step m) = horner_sum of_bool 2 (map (bit (unat (binary_value m))) [0..<4])"
    by (simp only: pattern_def led_levels_binary_step)
  also have "\<dots> = take_bit 4 (unat (binary_value m))"
    by (rule horner_sum_bit_eq_take_bit)
  finally show ?thesis by (simp add: take_bit_eq_mod)
qed

lemma binary_value_binary_step [simp]:
  "binary_value (led_mode_binary_step m) = binary_value m + 1"
  by (simp add: binary_step_eq)

lemma binary_value_binary_steps: "binary_value (binary_steps n m) = binary_value m + of_nat n"
  by (induction n arbitrary: m) simp_all

lemma binary_steps_Suc: "binary_steps (Suc n) m = led_mode_binary_step (binary_steps n m)"
  by (induction n arbitrary: m) simp_all

lemma pattern_binary_steps:
  "pattern (binary_steps (Suc n) m) = unat (binary_value m + of_nat n) mod 16"
  by (simp only: binary_steps_Suc pattern_binary_step binary_value_binary_steps)

section \<open>The binary-count pattern\<close>

text \<open>
  Claim C1, as stated: from counter value 0, after \<open>K\<close> invocations of the binary step the
  outputs show \<open>K mod 16\<close>. It fails at \<open>K = 1\<close>: the first invocation renders the
  counter value 0 and only then increments it, so the outputs show 0, not 1.
\<close>

theorem binary_pattern_after_first_step:
  "binary_value reset_low = 0 \<and> pattern (binary_steps 1 reset_low) \<noteq> 1 mod 16"
  by (simp add: reset_low_def reset_state_def pattern_binary_step)

lemma pattern_from_zero:
  assumes "binary_value m = 0"
  shows "pattern (binary_steps (Suc n) m) = n mod 16"
proof -
  have "pattern (binary_steps (Suc n) m) = unat (of_nat n :: 8 word) mod 16"
    using assms by (simp only: pattern_binary_steps add_0)
  also have "\<dots> = n mod 256 mod 16"
    by (simp add: unat_of_nat)
  also have "\<dots> = n mod 16"
    by (rule mod_mod_cancel) simp
  finally show ?thesis .
qed

lemma levels_from_zero:
  assumes "binary_value m = 0"
  shows "led_levels (binary_steps (Suc n) m) = map (bit n) [0..<4]"
proof -
  have "led_levels (binary_steps (Suc n) m) = map (bit (of_nat n :: 8 word)) [0..<4]"
    using assms by (simp only: binary_steps_Suc led_levels_binary_step binary_value_binary_steps add_0)
  also have "\<dots> = map (bit n) [0..<4]"
    by (rule map_cong) (simp_all add: bit_of_nat_iff)
  finally show ?thesis .
qed

text \<open>
  Claim C1, amended: from counter value 0 and for \<open>K > 0\<close>, after \<open>K\<close> invocations the
  outputs show \<open>(K - 1) mod 16\<close>, output \<open>i\<close> being bit \<open>i\<close> of \<open>K - 1\<close>: each invocation
  renders the counter as it was before its increment. The retained counter is \<open>K mod 256\<close>.
\<close>

theorem binary_pattern_shows_count_before_step:
  assumes "binary_value m = 0" and "0 < K"
  shows "pattern (binary_steps K m) = (K - 1) mod 16 \<and>
         led_levels (binary_steps K m) = map (bit (K - 1)) [0..<4] \<and>
         unat (binary_value (binary_steps K m)) = K mod 256"
proof -
  from \<open>0 < K\<close> obtain n where K: "K = Suc n" by (cases K) simp_all
  have "unat (binary_value (binary_steps K m)) = K mod 256"
    using assms(1) by (simp add: binary_value_binary_steps unat_of_nat del: of_nat_Suc)
  with K show ?thesis
    using pattern_from_zero [OF assms(1), of n] levels_from_zero [OF assms(1), of n] by simp
qed

theorem binary_pattern_shows_count_before_step_witness:
  "binary_value reset_low = 0 \<and> (0::nat) < 19 \<and>
   pattern (binary_steps 19 reset_low) = 2 \<and>
   led_levels (binary_steps 19 reset_low) = [False, True, False, False] \<and>
   unat (binary_value (binary_steps 19 reset_low)) = 19"
proof -
  have h: "binary_value reset_low = 0" by (simp add: reset_low_def reset_state_def)
  have b: "map (bit (18::nat)) [0..<4] = [False, True, False, False]"
    by (simp add: upt_rec bit_iff_odd)
  show ?thesis
    using binary_pattern_shows_count_before_step [OF h, of 19] h b by simp
qed

section \<open>The binary counter and its periods\<close>

lemma unat_binary_step:
  "unat (binary_value (led_mode_binary_step m)) = (unat (binary_value m) + 1) mod 256"
  by (simp add: unat_word_ariths)

lemma pattern_low_nibble: "pattern (led_mode_binary_step m) = unat (binary_value m AND 15)"
proof -
  have "(15 :: 8 word) = mask 4"
    by (simp add: mask_eq_exp_minus_1)
  then have "unat (binary_value m AND 15) = unat (take_bit 4 (binary_value m))"
    by (simp only: take_bit_eq_mask)
  also have "\<dots> = take_bit 4 (unat (binary_value m))"
    by (simp only: unsigned_take_bit_eq)
  also have "\<dots> = unat (binary_value m) mod 16"
    by (simp add: take_bit_eq_mod)
  finally show ?thesis by (simp only: pattern_binary_step)
qed

lemma unat_plus_of_nat:
  "unat ((w :: 8 word) + of_nat n) = (unat w + n) mod 256"
proof -
  have "unat (w + of_nat n) = (unat w + n mod 256) mod 256"
    by (simp add: unat_word_ariths unat_of_nat)
  then show ?thesis
    by (simp only: mod_add_right_eq)
qed

lemma pattern_mod16:
  "pattern (binary_steps (Suc n) m) = (unat (binary_value m) + n) mod 16"
proof -
  have "(unat (binary_value m) + n) mod 256 mod 16 = (unat (binary_value m) + n) mod 16"
    by (rule mod_mod_cancel) simp
  then show ?thesis by (simp only: pattern_binary_steps unat_plus_of_nat)
qed

lemma counter_mod256:
  "unat (binary_value (binary_steps n m)) = (unat (binary_value m) + n) mod 256"
  by (simp only: binary_value_binary_steps unat_plus_of_nat)

lemma shift_mod_neq:
  fixes x d q :: nat
  assumes "0 < d" "d < q"
  shows "(x + d) mod q \<noteq> x mod q"
proof
  assume "(x + d) mod q = x mod q"
  then have "q dvd (x + d) - x"
    by (simp only: mod_eq_dvd_iff_nat [of x "x + d" q, OF le_add1])
  then have "q dvd d" by simp
  with assms show False by (auto dest: dvd_imp_le)
qed

lemma pattern_period: "pattern (binary_steps (Suc n + 16) m) = pattern (binary_steps (Suc n) m)"
proof -
  have "pattern (binary_steps (Suc (n + 16)) m) = (unat (binary_value m) + n + 16) mod 16"
    by (simp only: pattern_mod16 add.assoc)
  also have "\<dots> = (unat (binary_value m) + n) mod 16"
    by (rule mod_add_self2)
  finally show ?thesis by (simp only: pattern_mod16 add_Suc)
qed

lemma pattern_no_shorter_period:
  assumes "0 < d" "d < 16"
  shows "pattern (binary_steps (Suc n + d) m) \<noteq> pattern (binary_steps (Suc n) m)"
proof -
  have a: "pattern (binary_steps (Suc n + d) m) = (unat (binary_value m) + n + d) mod 16"
    by (simp only: pattern_mod16 add_Suc add.assoc)
  have b: "pattern (binary_steps (Suc n) m) = (unat (binary_value m) + n) mod 16"
    by (rule pattern_mod16)
  show ?thesis
    unfolding a b using assms by (rule shift_mod_neq)
qed

lemma counter_period:
  "binary_value (binary_steps (n + 256) m) = binary_value (binary_steps n m)"
  by (simp add: binary_value_binary_steps)

lemma counter_no_shorter_period:
  assumes "0 < d" "d < 256"
  shows "binary_value (binary_steps (n + d) m) \<noteq> binary_value (binary_steps n m)"
proof
  assume "binary_value (binary_steps (n + d) m) = binary_value (binary_steps n m)"
  then have "unat (binary_value (binary_steps (n + d) m)) = unat (binary_value (binary_steps n m))"
    by simp
  then have "(unat (binary_value m) + n + d) mod 256 = (unat (binary_value m) + n) mod 256"
    by (simp only: counter_mod256 add.assoc)
  with shift_mod_neq [OF assms] show False by blast
qed


text \<open>
  Claim C7: the counter is an 8-bit value that a binary step increments modulo 256, only
  its low four bits reach the outputs, the pattern shown by successive invocations has
  period 16 and the counter has period 256, and neither has a shorter period.
\<close>

theorem binary_counter_wraps_and_periods:
  "unat (binary_value (led_mode_binary_step m)) = (unat (binary_value m) + 1) mod 256 \<and>
   pattern (led_mode_binary_step m) = unat (binary_value m AND 15) \<and>
   pattern (binary_steps (Suc n + 16) m) = pattern (binary_steps (Suc n) m) \<and>
   binary_value (binary_steps (n + 256) m) = binary_value (binary_steps n m) \<and>
   (\<forall>d. 0 < d \<and> d < 16 \<longrightarrow>
      pattern (binary_steps (Suc n + d) m) \<noteq> pattern (binary_steps (Suc n) m)) \<and>
   (\<forall>d. 0 < d \<and> d < 256 \<longrightarrow>
      binary_value (binary_steps (n + d) m) \<noteq> binary_value (binary_steps n m))"
proof (intro conjI allI impI)
  show "unat (binary_value (led_mode_binary_step m)) = (unat (binary_value m) + 1) mod 256"
    by (rule unat_binary_step)
  show "pattern (led_mode_binary_step m) = unat (binary_value m AND 15)"
    by (rule pattern_low_nibble)
  show "pattern (binary_steps (Suc n + 16) m) = pattern (binary_steps (Suc n) m)"
    by (rule pattern_period)
  show "binary_value (binary_steps (n + 256) m) = binary_value (binary_steps n m)"
    by (rule counter_period)
  show "pattern (binary_steps (Suc n + d) m) \<noteq> pattern (binary_steps (Suc n) m)"
    if "0 < d \<and> d < 16" for d
    using that by (intro pattern_no_shorter_period) simp_all
  show "binary_value (binary_steps (n + d) m) \<noteq> binary_value (binary_steps n m)"
    if "0 < d \<and> d < 256" for d
    using that by (intro counter_no_shorter_period) simp_all
qed

theorem binary_counter_wraps_and_periods_witness:
  "unat (binary_value (led_mode_binary_step (reset_low\<lparr>binary_value := 255\<rparr>))) = 0 \<and>
   pattern (led_mode_binary_step (reset_low\<lparr>binary_value := 255\<rparr>)) = 15 \<and>
   (0::nat) < 5 \<and> (5::nat) < 16 \<and>
   pattern (binary_steps (Suc 2 + 5) reset_low) \<noteq> pattern (binary_steps (Suc 2) reset_low) \<and>
   binary_value (binary_steps (2 + 5) reset_low) \<noteq> binary_value (binary_steps 2 reset_low)"
proof -
  note top = binary_counter_wraps_and_periods [of "reset_low\<lparr>binary_value := 255\<rparr>" 2]
  note low = binary_counter_wraps_and_periods [of reset_low 2]
  have five: "(0::nat) < 5 \<and> (5::nat) < 16" "(0::nat) < 5 \<and> (5::nat) < 256"
    by simp_all
  have "unat (binary_value (led_mode_binary_step (reset_low\<lparr>binary_value := 255\<rparr>))) = 0"
    using top by simp
  moreover have "pattern (led_mode_binary_step (reset_low\<lparr>binary_value := 255\<rparr>)) = 15"
    using top by simp
  moreover have
    "pattern (binary_steps (Suc 2 + 5) reset_low) \<noteq> pattern (binary_steps (Suc 2) reset_low)"
    using low five(1) by blast
  moreover have
    "binary_value (binary_steps (2 + 5) reset_low) \<noteq> binary_value (binary_steps 2 reset_low)"
    using low five(2) by blast
  ultimately show ?thesis using five(1) by blast
qed

section \<open>The chase pattern\<close>

lemma smod_4_nonneg: "0 \<le> a \<Longrightarrow> a smod 4 = a mod (4 :: int)"
  by (simp add: signed_modulo_int_def sgn_if)

lemma index_cases:
  assumes "index_ok m"
  obtains "flow_index m = 0" | "flow_index m = 1" | "flow_index m = 2" | "flow_index m = 3"
  using assms unfolding index_ok_def by fastforce

lemma flow_index_all_off [simp]: "flow_index (leds_all_off m) = flow_index m"
  by (simp add: leds_all_off_eq)

lemma flow_step_Some:
  assumes "index_ok m"
  shows "led_mode_flow_step m =
    Some (m\<lparr>pin_level := (pin_level m)(LED1_PIN := False, LED2_PIN := False,
                LED3_PIN := False, LED4_PIN := False, led_pins ! nat (flow_index m) := True),
            slept := (slept m)(LedThread := slept m LedThread + 150),
            flow_index := (flow_index m + 1) mod 4\<rparr>)"
  using assms
  by (simp add: led_mode_flow_step_def index_ok_def Let_def smod_4_nonneg
      leds_all_off_eq rt_pin_write_def rt_thread_mdelay_def)

lemma flow_step_None: "\<not> index_ok m \<Longrightarrow> led_mode_flow_step m = None"
  by (auto simp add: led_mode_flow_step_def index_ok_def Let_def)

lemma flow_step_levels:
  assumes "index_ok m" and "led_mode_flow_step m = Some m'"
  shows "led_levels m' = map (\<lambda>i. int i = flow_index m) [0..<4]"
  using assms(1)
proof (cases rule: index_cases)
  case 1
  with assms show ?thesis
    by (auto simp add: flow_step_Some led_levels_def led_pins_def upt_rec)
next
  case 2
  with assms show ?thesis
    by (auto simp add: flow_step_Some led_levels_def led_pins_def upt_rec)
next
  case 3
  with assms show ?thesis
    by (auto simp add: flow_step_Some led_levels_def led_pins_def upt_rec)
next
  case 4
  with assms show ?thesis
    by (auto simp add: flow_step_Some led_levels_def led_pins_def upt_rec)
qed

lemma flow_step_lit:
  assumes "index_ok m" and "led_mode_flow_step m = Some m'"
  shows "lit m' = [nat (flow_index m)]"
  using assms(1)
proof (cases rule: index_cases)
  case 1
  then show ?thesis
    by (simp add: lit_def flow_step_levels [OF assms] upt_rec)
next
  case 2
  then show ?thesis
    by (simp add: lit_def flow_step_levels [OF assms] upt_rec)
next
  case 3
  then show ?thesis
    by (simp add: lit_def flow_step_levels [OF assms] upt_rec)
next
  case 4
  then show ?thesis
    by (simp add: lit_def flow_step_levels [OF assms] upt_rec)
qed

lemma flow_step_index:
  assumes "index_ok m" and "led_mode_flow_step m = Some m'"
  shows "flow_index m' = (flow_index m + 1) mod 4" and "index_ok m'"
  using assms by (auto simp add: flow_step_Some index_ok_def)

lemma flow_steps_snoc:
  "flow_steps (Suc n) m = Option.bind (flow_steps n m) led_mode_flow_step"
proof (induction n arbitrary: m)
  case 0
  show ?case by (cases "led_mode_flow_step m") simp_all
next
  case (Suc n)
  show ?case
  proof (cases "led_mode_flow_step m")
    case None
    then show ?thesis by simp
  next
    case (Some a)
    with Suc [of a] show ?thesis by simp
  qed
qed

lemma flow_steps_index:
  assumes "index_ok m"
  shows "\<exists>m'. flow_steps n m = Some m' \<and> index_ok m' \<and>
              flow_index m' = (flow_index m + int n) mod 4"
  using assms
proof (induction n arbitrary: m)
  case 0
  then show ?case by (simp add: index_ok_def)
next
  case (Suc n)
  from Suc.prems obtain a where a: "led_mode_flow_step m = Some a"
    by (simp add: flow_step_Some)
  note ia = flow_step_index [OF Suc.prems a]
  from Suc.IH [OF ia(2)] obtain m' where m': "flow_steps n a = Some m'" "index_ok m'"
    "flow_index m' = (flow_index a + int n) mod 4" by blast
  have "(flow_index a + int n) mod 4 = (flow_index m + int (Suc n)) mod 4"
    unfolding ia(1) by (simp add: mod_add_left_eq add.assoc)
  with a m' show ?case by simp
qed

lemma lit_after:
  assumes "index_ok m"
  shows "map_option lit (flow_steps (Suc n) m) = Some [nat ((flow_index m + int n) mod 4)]"
proof -
  from flow_steps_index [OF assms, of n] obtain m1 where m1: "flow_steps n m = Some m1"
    "index_ok m1" "flow_index m1 = (flow_index m + int n) mod 4" by blast
  from m1(2) obtain m2 where m2: "led_mode_flow_step m1 = Some m2"
    by (simp add: flow_step_Some)
  from flow_step_lit [OF m1(2) m2] m1 m2 show ?thesis
    by (simp only: flow_steps_snoc bind.simps option.map)
qed

lemma four_consecutive:
  fixes a :: int
  shows "(\<lambda>d. nat ((a + int d) mod 4)) ` {0..<4} = {0..<4}"
proof -
  have s: "{0..<4::nat} = {0, 1, 2, 3}" by auto
  have "a mod 4 = 0 \<or> a mod 4 = 1 \<or> a mod 4 = 2 \<or> a mod 4 = 3" by presburger
  moreover have "(a + 1) mod 4 = (a mod 4 + 1) mod 4" "(a + 2) mod 4 = (a mod 4 + 2) mod 4"
    "(a + 3) mod 4 = (a mod 4 + 3) mod 4" by presburger+
  ultimately show ?thesis
    unfolding s by (elim disjE) (simp_all, auto)
qed

lemma shift_mod4_neq:
  fixes a :: int and d :: nat
  assumes "0 < d" "d < 4"
  shows "nat ((a + int d) mod 4) \<noteq> nat (a mod 4)"
proof -
  have "(a + int d) mod 4 \<noteq> a mod 4"
    using assms by presburger
  moreover have "0 \<le> (a + int d) mod 4" "0 \<le> a mod 4"
    by simp_all
  ultimately show ?thesis
    by (simp add: eq_nat_nat_iff)
qed

text \<open>
  Claim C2: with the position index in the array, every invocation of the chase step
  returns, leaves exactly one output high, namely the one at the index the invocation
  found, and advances the index by one modulo 4; the high output repeats after 4
  invocations, after no fewer, and four consecutive invocations light all four outputs.
\<close>

theorem chase_one_output_period_four:
  assumes "index_ok m"
  shows "\<exists>m1 m2. flow_steps n m = Some m1 \<and> led_mode_flow_step m1 = Some m2 \<and>
           flow_steps (Suc n) m = Some m2 \<and>
           lit m2 = [nat (flow_index m1)] \<and> nat (flow_index m1) < 4 \<and>
           flow_index m1 = (flow_index m + int n) mod 4 \<and>
           flow_index m2 = (flow_index m1 + 1) mod 4 \<and>
           map_option lit (flow_steps (Suc n + 4) m) = Some (lit m2) \<and>
           (\<forall>d. 0 < d \<and> d < 4 \<longrightarrow> map_option lit (flow_steps (Suc n + d) m) \<noteq> Some (lit m2)) \<and>
           (\<lambda>d. map_option lit (flow_steps (Suc n + d) m)) ` {0..<4} = (\<lambda>i. Some [i]) ` {0..<4}"
proof -
  let ?a = "flow_index m + int n"
  from flow_steps_index [OF assms, of n] obtain m1 where m1: "flow_steps n m = Some m1"
    "index_ok m1" "flow_index m1 = ?a mod 4" by blast
  from m1(2) obtain m2 where m2: "led_mode_flow_step m1 = Some m2"
    by (simp add: flow_step_Some)
  have run2: "flow_steps (Suc n) m = Some m2"
    using m1(1) m2 by (simp only: flow_steps_snoc bind.simps)
  have lit2: "lit m2 = [nat (?a mod 4)]"
    using flow_step_lit [OF m1(2) m2] m1(3) by simp
  have after: "map_option lit (flow_steps (Suc n + d) m) = Some [nat ((?a + int d) mod 4)]" for d
    using lit_after [OF assms, of "n + d"] by (simp add: add.assoc)
  have "nat (flow_index m1) < 4"
    using m1(2) unfolding index_ok_def by linarith
  moreover have "flow_index m2 = (flow_index m1 + 1) mod 4"
    by (rule flow_step_index(1) [OF m1(2) m2])
  moreover have "map_option lit (flow_steps (Suc n + 4) m) = Some (lit m2)"
    unfolding after lit2 by simp
  moreover have "\<forall>d. 0 < d \<and> d < 4 \<longrightarrow>
      map_option lit (flow_steps (Suc n + d) m) \<noteq> Some (lit m2)"
    unfolding after lit2 using shift_mod4_neq [of _ ?a] by simp
  moreover have "(\<lambda>d. map_option lit (flow_steps (Suc n + d) m)) ` {0..<4} = (\<lambda>i. Some [i]) ` {0..<4}"
  proof -
    have "(\<lambda>d. map_option lit (flow_steps (Suc n + d) m)) ` {0..<4} =
          (\<lambda>i. Some [i]) ` ((\<lambda>d. nat ((?a + int d) mod 4)) ` {0..<4})"
      unfolding after by (simp only: image_image)
    then show ?thesis by (simp only: four_consecutive)
  qed
  ultimately show ?thesis
    using m1(1,3) m2 run2 flow_step_lit [OF m1(2) m2]
    by (intro exI conjI) assumption+
qed

theorem chase_one_output_period_four_witness:
  "index_ok reset_low \<and>
   map_option lit (flow_steps (Suc 5) reset_low) = Some [1] \<and>
   map_option flow_index (flow_steps (Suc 5) reset_low) = Some 2 \<and>
   map_option lit (flow_steps (Suc 5 + 4) reset_low) = Some [1] \<and>
   map_option lit (flow_steps (Suc 5 + 2) reset_low) \<noteq> Some [1]"
proof -
  have h: "index_ok reset_low"
    by (simp add: index_ok_def reset_low_def reset_state_def)
  have z: "flow_index reset_low = 0"
    by (simp add: reset_low_def reset_state_def)
  have two: "(0::nat) < 2 \<and> (2::nat) < 4"
    by simp
  from chase_one_output_period_four [OF h, of 5] obtain m1 m2 :: machine where
    r: "flow_steps (Suc 5) reset_low = Some m2" and
    l: "lit m2 = [nat (flow_index m1)]" and
    i1: "flow_index m1 = (flow_index reset_low + int 5) mod 4" and
    i2: "flow_index m2 = (flow_index m1 + 1) mod 4" and
    p: "map_option lit (flow_steps (Suc 5 + 4) reset_low) = Some (lit m2)" and
    q: "\<forall>d. 0 < d \<and> d < 4 \<longrightarrow> map_option lit (flow_steps (Suc 5 + d) reset_low) \<noteq> Some (lit m2)"
    by (elim exE conjE)
  from i1 z have i1': "flow_index m1 = 1" by simp
  with l have l': "lit m2 = [1]" by simp
  from i2 i1' have "flow_index m2 = 2" by simp
  moreover from q two have "map_option lit (flow_steps (Suc 5 + 2) reset_low) \<noteq> Some (lit m2)"
    by blast
  ultimately show ?thesis
    using h r p l' by simp
qed

section \<open>The key thread: confirmed edges and the mode\<close>

lemmas key_check_defs = key1_check_def key2_check_def key3_check_def

lemma key1_check_mode:
  "g_led_mode (key1_check s m) =
     (if falling_edge (key1_last m) (k1 s) \<and> again1 s = 0 then LED_MODE_FLOW else g_led_mode m)"
  "console (key1_check s m) =
     (if falling_edge (key1_last m) (k1 s) \<and> again1 s = 0 then console m @ [msg_flow] else console m)"
  by (simp_all add: key1_check_def falling_edge_def platform_defs Let_def)

lemma key2_check_mode:
  "g_led_mode (key2_check s m) =
     (if falling_edge (key2_last m) (k2 s) \<and> again2 s = 0 then LED_MODE_BINARY else g_led_mode m)"
  "console (key2_check s m) =
     (if falling_edge (key2_last m) (k2 s) \<and> again2 s = 0 then console m @ [msg_binary] else console m)"
  by (simp_all add: key2_check_def falling_edge_def platform_defs Let_def)

lemma key3_check_mode:
  "g_led_mode (key3_check s m) =
     (if falling_edge (key3_last m) (k3 s) \<and> again3 s = 0 then LED_MODE_NONE else g_led_mode m)"
  "console (key3_check s m) =
     (if falling_edge (key3_last m) (k3 s) \<and> again3 s = 0 then console m @ [msg_none] else console m)"
  by (simp_all add: key3_check_def falling_edge_def platform_defs Let_def)

lemma key_check_frame [simp]:
  "key1_last (key1_check s m) = key1_last m" "key2_last (key1_check s m) = key2_last m"
  "key3_last (key1_check s m) = key3_last m" "key1_last (key2_check s m) = key1_last m"
  "key2_last (key2_check s m) = key2_last m" "key3_last (key2_check s m) = key3_last m"
  "key1_last (key3_check s m) = key1_last m" "key2_last (key3_check s m) = key2_last m"
  "key3_last (key3_check s m) = key3_last m"
  "flow_index (key1_check s m) = flow_index m" "flow_index (key2_check s m) = flow_index m"
  "flow_index (key3_check s m) = flow_index m"
  "binary_value (key1_check s m) = binary_value m" "binary_value (key2_check s m) = binary_value m"
  "binary_value (key3_check s m) = binary_value m"
  "pin_level (key1_check s m) = pin_level m" "pin_level (key2_check s m) = pin_level m"
  "pin_level (key3_check s m) = pin_level m"
  by (simp_all add: key_check_defs platform_defs Let_def)

lemma button_check_mode:
  "g_led_mode (button_check b s m) =
     (if confirmed b s m then mode_of_button b else g_led_mode m)"
  "console (button_check b s m) =
     (if confirmed b s m then console m @ [msg_of_button b] else console m)"
  by (cases b; simp add: key1_check_mode key2_check_mode key3_check_mode; fail)+

lemma button_check_frame [simp]:
  "key1_last (button_check b s m) = key1_last m" "key2_last (button_check b s m) = key2_last m"
  "key3_last (button_check b s m) = key3_last m" "flow_index (button_check b s m) = flow_index m"
  "binary_value (button_check b s m) = binary_value m"
  "pin_level (button_check b s m) = pin_level m"
  by (cases b; simp; fail)+

lemma key_end_frame [simp]:
  "g_led_mode (key_end s m) = g_led_mode m" "console (key_end s m) = console m"
  "flow_index (key_end s m) = flow_index m" "binary_value (key_end s m) = binary_value m"
  "pin_level (key_end s m) = pin_level m" "key1_last (key_end s m) = k1 s"
  "key2_last (key_end s m) = k2 s" "key3_last (key_end s m) = k3 s"
  by (simp_all add: key_end_def rt_thread_mdelay_def)

lemma confirmed_after_check [simp]: "confirmed b s (button_check b' s' m) = confirmed b s m"
  by (cases b) simp_all

lemma key_iter_checks:
  "key_thread_iter s m =
     key_end s (button_check KEY3 s (button_check KEY2 s (button_check KEY1 s m)))"
  by (simp add: key_thread_iter_def Let_def)

lemma key_iter_frame [simp]:
  "flow_index (key_thread_iter s m) = flow_index m"
  "binary_value (key_thread_iter s m) = binary_value m"
  "pin_level (key_thread_iter s m) = pin_level m"
  by (simp_all add: key_thread_iter_def Let_def)

lemma key_iter_mode:
  "g_led_mode (key_thread_iter s m) = last_wins (g_led_mode m) (confirmed_edges s m)"
  by (auto simp add: key_thread_iter_def Let_def key1_check_mode key2_check_mode key3_check_mode
      confirmed_edges_def last_wins_def)

lemma key_iter_console:
  "console (key_thread_iter s m) = console m @ map msg_of_button (confirmed_edges s m)"
  by (simp add: key_thread_iter_def Let_def key1_check_mode key2_check_mode key3_check_mode
      confirmed_edges_def)

lemma key_iter_lasts [simp]:
  "key1_last (key_thread_iter s m) = k1 s" "key2_last (key_thread_iter s m) = k2 s"
  "key3_last (key_thread_iter s m) = k3 s"
  by (simp_all add: key_thread_iter_def Let_def)

lemma last_wins_append: "last_wins (last_wins old xs) ys = last_wins old (xs @ ys)"
  by (simp add: last_wins_def)

lemma led_levels_key_event [simp]:
  "led_levels (button_check b s m) = led_levels m" "led_levels (key_end s m) = led_levels m"
  "led_levels (key_thread_iter s m) = led_levels m"
  by (simp_all add: led_levels_def)

lemma index_ok_key_event [simp]:
  "index_ok (button_check b s m) = index_ok m" "index_ok (key_end s m) = index_ok m"
  "index_ok (key_thread_iter s m) = index_ok m"
  by (simp_all add: index_ok_def)

lemma run_scan:
  "run (scan s @ es) m = run es (key_thread_iter s m)"
  "run_edges (scan s @ es) m = confirmed_edges s m @ run_edges es (key_thread_iter s m)"
  "run_modes (scan s @ es) m = run_modes es (key_thread_iter s m)"
  unfolding key_iter_checks by (simp_all add: scan_def confirmed_edges_def)

section \<open>The LED thread iteration\<close>

lemma led_iter_default:
  assumes "g_led_mode m \<noteq> LED_MODE_FLOW" and "g_led_mode m \<noteq> LED_MODE_BINARY"
  shows "led_thread_iter m = Some (rt_thread_mdelay LedThread 50 (leds_all_off m))"
  using assms by (simp add: led_thread_iter_def)

lemma led_levels_mdelay [simp]: "led_levels (rt_thread_mdelay t ms m) = led_levels m"
  by (simp add: led_levels_def rt_thread_mdelay_def)

lemma led_iter_frame:
  assumes "led_thread_iter m = Some m'"
  shows "g_led_mode m' = g_led_mode m" and "console m' = console m"
    and "key1_last m' = key1_last m" and "key2_last m' = key2_last m"
    and "key3_last m' = key3_last m"
  using assms
  by (auto simp add: led_thread_iter_def led_mode_flow_step_def binary_step_eq leds_all_off_eq
      platform_defs Let_def split: if_splits)

lemma led_iter_total:
  assumes "index_ok m"
  shows "\<exists>m'. led_thread_iter m = Some m' \<and> index_ok m'"
proof (cases "g_led_mode m = LED_MODE_FLOW")
  case True
  from assms obtain m' where m': "led_mode_flow_step m = Some m'"
    by (simp add: flow_step_Some)
  with True flow_step_index(2) [OF assms m'] show ?thesis
    by (simp add: led_thread_iter_def)
next
  case False
  with assms show ?thesis
    by (simp add: led_thread_iter_def binary_step_eq leds_all_off_eq rt_thread_mdelay_def
        index_ok_def)
qed

section \<open>Interleaved runs\<close>

lemma run_mode:
  assumes "index_ok m"
  shows "\<exists>m'. run es m = Some m' \<and> index_ok m' \<and>
           g_led_mode m' = last_wins (g_led_mode m) (run_edges es m) \<and>
           console m' = console m @ map msg_of_button (run_edges es m)"
  using assms
proof (induction es arbitrary: m)
  case Nil
  then show ?case by (simp add: last_wins_def)
next
  case (Cons e es)
  show ?case
  proof (cases e)
    case LedIter
    from led_iter_total [OF Cons.prems] obtain a where a: "led_thread_iter m = Some a" "index_ok a"
      by blast
    from Cons.IH [OF a(2)] obtain m' where m': "run es a = Some m'" "index_ok m'"
      "g_led_mode m' = last_wins (g_led_mode a) (run_edges es a)"
      "console m' = console a @ map msg_of_button (run_edges es a)" by blast
    with LedIter a led_iter_frame(1,2) [OF a(1)] show ?thesis by simp
  next
    case (KeyCheck b s)
    let ?a = "button_check b s m"
    have "index_ok ?a" using Cons.prems by simp
    from Cons.IH [OF this] obtain m' where m': "run es ?a = Some m'" "index_ok m'"
      "g_led_mode m' = last_wins (g_led_mode ?a) (run_edges es ?a)"
      "console m' = console ?a @ map msg_of_button (run_edges es ?a)" by blast
    with KeyCheck show ?thesis
      by (simp add: button_check_mode last_wins_def)
  next
    case (KeyEnd s)
    have "index_ok (key_end s m)" using Cons.prems by simp
    from Cons.IH [OF this] KeyEnd show ?thesis by simp
  qed
qed

text \<open>
  Claim C3: after any schedule of key checks, loop ends and LED iterations, the mode is the
  one of the last confirmed edge, and the old one when no edge is confirmed; the console
  holds one line per confirmed edge, in the same order. One whole scan iteration is the
  schedule \<open>scan s\<close>: its confirmed edges count in program order KEY1, KEY2, KEY3, so
  the last of them wins.
\<close>

theorem mode_is_last_confirmed_edge:
  assumes "index_ok m"
  shows "(\<exists>m'. run es m = Some m' \<and>
            (run_edges es m \<noteq> [] \<longrightarrow> g_led_mode m' = mode_of_button (last (run_edges es m))) \<and>
            (run_edges es m = [] \<longrightarrow> g_led_mode m' = g_led_mode m) \<and>
            console m' = console m @ map msg_of_button (run_edges es m)) \<and>
         run (scan s) m = Some (key_thread_iter s m) \<and>
         run_edges (scan s) m = confirmed_edges s m \<and>
         g_led_mode (key_thread_iter s m) = last_wins (g_led_mode m) (confirmed_edges s m)"
proof -
  from run_mode [OF assms, of es] obtain m' where "run es m = Some m'"
    "g_led_mode m' = last_wins (g_led_mode m) (run_edges es m)"
    "console m' = console m @ map msg_of_button (run_edges es m)" by blast
  then have "\<exists>m'. run es m = Some m' \<and>
      (run_edges es m \<noteq> [] \<longrightarrow> g_led_mode m' = mode_of_button (last (run_edges es m))) \<and>
      (run_edges es m = [] \<longrightarrow> g_led_mode m' = g_led_mode m) \<and>
      console m' = console m @ map msg_of_button (run_edges es m)"
    by (simp add: last_wins_def)
  moreover have "run (scan s) m = Some (key_thread_iter s m)"
    and "run_edges (scan s) m = confirmed_edges s m"
    using run_scan(1,2) [of s "[]" m] by simp_all
  ultimately show ?thesis
    using key_iter_mode [of s m] by (intro conjI) assumption+
qed

theorem mode_is_last_confirmed_edge_witness:
  "index_ok reset_low \<and>
   run_edges [KeyCheck KEY1 press12, LedIter, KeyCheck KEY2 press12, KeyCheck KEY3 press12,
     KeyEnd press12] reset_low = [KEY1, KEY2] \<and>
   run_modes [KeyCheck KEY1 press12, LedIter, KeyCheck KEY2 press12, KeyCheck KEY3 press12,
     KeyEnd press12] reset_low = [LED_MODE_FLOW] \<and>
   map_option g_led_mode (run [KeyCheck KEY1 press12, LedIter, KeyCheck KEY2 press12,
     KeyCheck KEY3 press12, KeyEnd press12] reset_low) = Some LED_MODE_BINARY \<and>
   map_option console (run [KeyCheck KEY1 press12, LedIter, KeyCheck KEY2 press12,
     KeyCheck KEY3 press12, KeyEnd press12] reset_low) = Some [msg_flow, msg_binary]"
proof -
  let ?es = "[KeyCheck KEY1 press12, LedIter, KeyCheck KEY2 press12, KeyCheck KEY3 press12,
    KeyEnd press12]"
  have h: "index_ok reset_low"
    by (simp add: index_ok_def reset_low_def reset_state_def)
  have e: "run_edges ?es reset_low = [KEY1, KEY2]"
    by (simp add: led_thread_iter_def flow_step_Some index_ok_def key_check_defs platform_defs
        falling_edge_def press12_def reset_low_def reset_state_def mode_none_other Let_def)
  have ms: "run_modes ?es reset_low = [LED_MODE_FLOW]"
    by (simp add: led_thread_iter_def flow_step_Some index_ok_def key_check_defs platform_defs
        falling_edge_def press12_def reset_low_def reset_state_def mode_none_other Let_def)
  have c: "console reset_low = []"
    by (simp add: reset_low_def reset_state_def)
  from mode_is_last_confirmed_edge [OF h, where es = ?es and s = press12]
  have "\<exists>m'. run ?es reset_low = Some m' \<and>
      (run_edges ?es reset_low \<noteq> [] \<longrightarrow>
         g_led_mode m' = mode_of_button (last (run_edges ?es reset_low))) \<and>
      (run_edges ?es reset_low = [] \<longrightarrow> g_led_mode m' = g_led_mode reset_low) \<and>
      console m' = console reset_low @ map msg_of_button (run_edges ?es reset_low)"
    by (rule conjunct1)
  then obtain m' :: machine where
    "run ?es reset_low = Some m'"
    "run_edges ?es reset_low \<noteq> [] \<longrightarrow> g_led_mode m' = mode_of_button (last (run_edges ?es reset_low))"
    "console m' = console reset_low @ map msg_of_button (run_edges ?es reset_low)"
    by (elim exE conjE)
  with h e ms c show ?thesis by simp
qed

section \<open>Debounce\<close>

lemma msg_distinct:
  "msg_flow \<noteq> msg_binary" "msg_flow \<noteq> msg_none" "msg_binary \<noteq> msg_none"
  by (simp_all add: msg_flow_def msg_binary_def msg_none_def)

lemma msg_of_button_inj: "msg_of_button a = msg_of_button b \<Longrightarrow> a = b"
  using msg_distinct by (cases a; cases b) simp_all

lemma glitch_not_confirmed: "glitch b s m \<Longrightarrow> b \<notin> set (confirmed_edges s m)"
  by (cases b) (simp_all add: confirmed_edges_def)

lemma glitch_before_check: "glitch b s (before_check b s m) = glitch b s m"
  by (cases b) simp_all

lemma glitch_check_mode:
  assumes "glitch b s m"
  shows "g_led_mode (button_check b s m) = g_led_mode m"
    and "console (button_check b s m) = console m"
  using assms
  by (cases b; simp add: key1_check_mode key2_check_mode key3_check_mode; fail)+

text \<open>
  Claim C4, as stated: a scan iteration in which a key shows a falling edge and reads high
  again 20 ms later leaves the mode unchanged. It fails when another key is confirmed in
  the same iteration: KEY1 bounces, KEY2 is held, and the iteration sets the binary mode.
\<close>

theorem glitch_iteration_changes_mode:
  "glitch KEY1 bounce1_press2 reset_low \<and>
   g_led_mode (key_thread_iter bounce1_press2 reset_low) \<noteq> g_led_mode reset_low"
  by (simp add: key_iter_mode confirmed_edges_def last_wins_def falling_edge_def
      bounce1_press2_def reset_low_def reset_state_def mode_defs)

text \<open>
  Claim C4, amended: for a key with a falling edge whose second sample is not low, that
  key's own check leaves the mode and the console as it found them, the key is not among
  the confirmed edges of the iteration, no line of that key is printed in the iteration,
  and when no other key is confirmed in the iteration the mode and the console are
  unchanged by the whole iteration.
\<close>

theorem glitch_changes_nothing_by_itself:
  assumes "glitch b s m"
  shows "g_led_mode (button_check b s (before_check b s m)) = g_led_mode (before_check b s m) \<and>
         console (button_check b s (before_check b s m)) = console (before_check b s m) \<and>
         b \<notin> set (confirmed_edges s m) \<and>
         console (key_thread_iter s m) = console m @ map msg_of_button (confirmed_edges s m) \<and>
         msg_of_button b \<notin> set (map msg_of_button (confirmed_edges s m)) \<and>
         (confirmed_edges s m = [] \<longrightarrow>
            g_led_mode (key_thread_iter s m) = g_led_mode m \<and>
            console (key_thread_iter s m) = console m)"
proof -
  from assms have g: "glitch b s (before_check b s m)"
    by (simp only: glitch_before_check)
  have "msg_of_button b \<notin> set (map msg_of_button (confirmed_edges s m))"
    using glitch_not_confirmed [OF assms] by (auto dest: msg_of_button_inj)
  moreover have "confirmed_edges s m = [] \<longrightarrow>
      g_led_mode (key_thread_iter s m) = g_led_mode m \<and> console (key_thread_iter s m) = console m"
    by (simp add: key_iter_mode key_iter_console last_wins_def)
  ultimately show ?thesis
    using glitch_check_mode [OF g] glitch_not_confirmed [OF assms] key_iter_console [of s m]
    by (intro conjI) assumption+
qed

theorem glitch_changes_nothing_by_itself_witness:
  "glitch KEY1 bounce1 (reset_low\<lparr>g_led_mode := LED_MODE_BINARY\<rparr>) \<and>
   confirmed_edges bounce1 (reset_low\<lparr>g_led_mode := LED_MODE_BINARY\<rparr>) = [] \<and>
   g_led_mode (key_thread_iter bounce1 (reset_low\<lparr>g_led_mode := LED_MODE_BINARY\<rparr>)) =
     LED_MODE_BINARY \<and>
   console (key_thread_iter bounce1 (reset_low\<lparr>g_led_mode := LED_MODE_BINARY\<rparr>)) = []"
proof -
  let ?m = "reset_low\<lparr>g_led_mode := LED_MODE_BINARY\<rparr>"
  have g: "glitch KEY1 bounce1 ?m"
    by (simp add: falling_edge_def bounce1_def reset_low_def reset_state_def)
  have e: "confirmed_edges bounce1 ?m = []"
    by (simp add: confirmed_edges_def falling_edge_def bounce1_def reset_low_def reset_state_def)
  have c: "console ?m = []" "g_led_mode ?m = LED_MODE_BINARY"
    by (simp_all add: reset_low_def reset_state_def)
  from glitch_changes_nothing_by_itself [OF g] e c g show ?thesis
    by simp
qed

section \<open>Rendering the Off mode\<close>

lemma all_low_default: "all_low (rt_thread_mdelay LedThread 50 (leds_all_off m))"
  by (simp add: all_low_def)

lemma all_low_key_event [simp]:
  "all_low (button_check b s m) = all_low m" "all_low (key_end s m) = all_low m"
  "all_low (key_thread_iter s m) = all_low m"
  by (simp_all add: all_low_def)

lemma run_off_all_low:
  assumes "all_low m \<or> LedIter \<in> set es" and "set (run_modes es m) \<subseteq> {LED_MODE_NONE}"
  shows "\<exists>m'. run es m = Some m' \<and> all_low m'"
  using assms
proof (induction es arbitrary: m)
  case Nil
  then show ?case by simp
next
  case (Cons e es)
  show ?case
  proof (cases e)
    case LedIter
    with Cons.prems(2) have off: "g_led_mode m = LED_MODE_NONE" by simp
    let ?a = "rt_thread_mdelay LedThread 50 (leds_all_off m)"
    from off have a: "led_thread_iter m = Some ?a"
      by (simp add: led_iter_default mode_none_other)
    with LedIter Cons.prems(2) have "set (run_modes es ?a) \<subseteq> {LED_MODE_NONE}" by simp
    with Cons.IH [of ?a] all_low_default [of m] obtain m' where "run es ?a = Some m'" "all_low m'"
      by blast
    with LedIter a show ?thesis by simp
  next
    case (KeyCheck b s)
    with Cons.prems have "all_low (button_check b s m) \<or> LedIter \<in> set es"
      and "set (run_modes es (button_check b s m)) \<subseteq> {LED_MODE_NONE}" by auto
    from Cons.IH [OF this] KeyCheck show ?thesis by simp
  next
    case (KeyEnd s)
    with Cons.prems have "all_low (key_end s m) \<or> LedIter \<in> set es"
      and "set (run_modes es (key_end s m)) \<subseteq> {LED_MODE_NONE}" by auto
    from Cons.IH [OF this] KeyEnd show ?thesis by simp
  qed
qed

text \<open>
  Claim C5: an LED iteration that reads the mode Off drives all four outputs low and leaves
  the mode as it is; so in every schedule whose LED iterations all read Off and that
  holds at least one of them, the run returns with all four outputs low.
\<close>

theorem off_mode_drives_all_low:
  assumes "g_led_mode m = LED_MODE_NONE"
  shows "(\<exists>m'. led_thread_iter m = Some m' \<and> all_low m' \<and> g_led_mode m' = LED_MODE_NONE) \<and>
         (LedIter \<in> set es \<and> set (run_modes es m) \<subseteq> {LED_MODE_NONE} \<longrightarrow>
            (\<exists>m'. run es m = Some m' \<and> all_low m'))"
proof -
  let ?a = "rt_thread_mdelay LedThread 50 (leds_all_off m)"
  from assms have a: "led_thread_iter m = Some ?a"
    by (simp add: led_iter_default mode_none_other)
  with assms have "g_led_mode ?a = LED_MODE_NONE"
    by (simp add: led_iter_frame(1))
  with a all_low_default [of m] run_off_all_low [of m es] show ?thesis by blast
qed

theorem off_mode_drives_all_low_witness:
  "g_led_mode reset_high = LED_MODE_NONE \<and> led_levels reset_high = [True, True, True, True] \<and>
   map_option led_levels (led_thread_iter reset_high) = Some [False, False, False, False] \<and>
   LedIter \<in> set (scan released @ [LedIter, LedIter]) \<and>
   run_modes (scan released @ [LedIter, LedIter]) reset_high = [LED_MODE_NONE, LED_MODE_NONE] \<and>
   map_option led_levels (run (scan released @ [LedIter, LedIter]) reset_high) =
     Some [False, False, False, False]"
proof -
  let ?es = "scan released @ [LedIter, LedIter]"
  have h: "g_led_mode reset_high = LED_MODE_NONE"
    by (simp add: reset_high_def reset_state_def)
  have l: "led_levels reset_high = [True, True, True, True]"
    by (simp add: led_levels_def led_pins_def reset_high_def reset_state_def)
  let ?k = "key_thread_iter released reset_high"
  have k: "g_led_mode ?k = LED_MODE_NONE"
    by (simp add: key_iter_mode confirmed_edges_def falling_edge_def released_def last_wins_def h)
  let ?a = "rt_thread_mdelay LedThread 50 (leds_all_off ?k)"
  have a: "led_thread_iter ?k = Some ?a"
    using k by (simp add: led_iter_default mode_none_other)
  have a': "g_led_mode ?a = LED_MODE_NONE"
    using k a by (simp add: led_iter_frame(1))
  have b: "led_thread_iter ?a = Some (rt_thread_mdelay LedThread 50 (leds_all_off ?a))"
    using a' by (simp add: led_iter_default mode_none_other)
  have ms: "run_modes ?es reset_high = [LED_MODE_NONE, LED_MODE_NONE]"
    by (simp add: run_scan a b k a')
  have mem: "LedIter \<in> set ?es" by simp
  have sub: "set (run_modes ?es reset_high) \<subseteq> {LED_MODE_NONE}"
    unfolding ms by simp
  note t = off_mode_drives_all_low [OF h, of ?es]
  from t obtain m1 :: machine where m1: "led_thread_iter reset_high = Some m1" "all_low m1"
    by blast
  from t mem sub obtain m2 :: machine where m2: "run ?es reset_high = Some m2" "all_low m2"
    by blast
  have "map_option led_levels (led_thread_iter reset_high) = Some [False, False, False, False]"
    using m1 by (simp add: all_low_def)
  moreover have "map_option led_levels (run ?es reset_high) = Some [False, False, False, False]"
    using m2 by (simp add: all_low_def)
  ultimately show ?thesis
    using h l ms mem by blast
qed

lemma leds_all_off_mode_update:
  "leds_all_off (m\<lparr>g_led_mode := v\<rparr>) = (leds_all_off m)\<lparr>g_led_mode := v\<rparr>"
  by (simp add: leds_all_off_eq)

text \<open>
  Claim C10: for every byte in the mode variable other than the Chase and BinaryCount
  codes, an LED iteration takes the default branch: it switches the four outputs off and
  sleeps 50 ms, exactly as it does for the Off code.
\<close>

theorem other_mode_bytes_render_as_off:
  assumes "g_led_mode m \<noteq> LED_MODE_FLOW" and "g_led_mode m \<noteq> LED_MODE_BINARY"
  shows "led_thread_iter m = Some (rt_thread_mdelay LedThread 50 (leds_all_off m)) \<and>
         all_low (rt_thread_mdelay LedThread 50 (leds_all_off m)) \<and>
         led_thread_iter m =
           map_option (\<lambda>x. x\<lparr>g_led_mode := g_led_mode m\<rparr>)
             (led_thread_iter (m\<lparr>g_led_mode := LED_MODE_NONE\<rparr>))"
proof -
  let ?off = "m\<lparr>g_led_mode := LED_MODE_NONE\<rparr>"
  have d: "led_thread_iter ?off = Some (rt_thread_mdelay LedThread 50 (leds_all_off ?off))"
    by (rule led_iter_default) (simp_all add: mode_none_other)
  have u: "(rt_thread_mdelay LedThread 50 (leds_all_off ?off))\<lparr>g_led_mode := g_led_mode m\<rparr> =
      rt_thread_mdelay LedThread 50 (leds_all_off m)"
    by (simp add: leds_all_off_eq rt_thread_mdelay_def)
  have "led_thread_iter m =
      map_option (\<lambda>x. x\<lparr>g_led_mode := g_led_mode m\<rparr>) (led_thread_iter ?off)"
    by (simp only: d option.map u led_iter_default [OF assms])
  with led_iter_default [OF assms] all_low_default [of m] show ?thesis
    by (intro conjI) assumption+
qed

theorem other_mode_bytes_render_as_off_witness:
  "g_led_mode (reset_high\<lparr>g_led_mode := 200\<rparr>) \<noteq> LED_MODE_FLOW \<and>
   g_led_mode (reset_high\<lparr>g_led_mode := 200\<rparr>) \<noteq> LED_MODE_BINARY \<and>
   led_levels (reset_high\<lparr>g_led_mode := 200\<rparr>) = [True, True, True, True] \<and>
   map_option led_levels (led_thread_iter (reset_high\<lparr>g_led_mode := 200\<rparr>)) =
     Some [False, False, False, False] \<and>
   map_option g_led_mode (led_thread_iter (reset_high\<lparr>g_led_mode := 200\<rparr>)) = Some 200"
proof -
  let ?m = "reset_high\<lparr>g_led_mode := 200\<rparr>"
  have h: "g_led_mode ?m \<noteq> LED_MODE_FLOW" "g_led_mode ?m \<noteq> LED_MODE_BINARY"
    by (simp_all add: mode_defs)
  have l: "led_levels ?m = [True, True, True, True]"
    by (simp add: led_levels_def led_pins_def reset_high_def reset_state_def)
  from other_mode_bytes_render_as_off [OF h]
  have "led_thread_iter ?m = Some (rt_thread_mdelay LedThread 50 (leds_all_off ?m))"
    by (rule conjunct1)
  then have "map_option led_levels (led_thread_iter ?m) = Some [False, False, False, False]"
    and "map_option g_led_mode (led_thread_iter ?m) = Some 200"
    by (simp_all add: leds_all_off_eq rt_thread_mdelay_def led_levels_def led_pins_def)
  with h l show ?thesis by blast
qed

section \<open>The retained counters\<close>

lemma flow_step_keeps_value:
  "led_mode_flow_step m = Some m' \<Longrightarrow> binary_value m' = binary_value m"
  by (auto simp add: led_mode_flow_step_def leds_all_off_eq platform_defs Let_def
      split: if_splits)

lemma flow_step_advances:
  assumes "led_mode_flow_step m = Some m'"
  shows "flow_index m' = (flow_index m + 1) mod 4"
proof -
  from assms have "index_ok m"
    by (cases "index_ok m") (simp_all add: flow_step_None)
  from flow_step_index(1) [OF this assms] show ?thesis .
qed

lemma binary_step_keeps_index [simp]: "flow_index (led_mode_binary_step m) = flow_index m"
  by (simp add: binary_step_eq)

lemma off_render_keeps:
  "flow_index (rt_thread_mdelay LedThread 50 (leds_all_off m)) = flow_index m"
  "binary_value (rt_thread_mdelay LedThread 50 (leds_all_off m)) = binary_value m"
  by (simp_all add: leds_all_off_eq rt_thread_mdelay_def)

lemma led_iter_counters:
  assumes "index_ok m"
  shows "\<exists>a. led_thread_iter m = Some a \<and> index_ok a \<and>
           flow_index a = (flow_index m + (if g_led_mode m = LED_MODE_FLOW then 1 else 0)) mod 4 \<and>
           binary_value a = binary_value m + (if g_led_mode m = LED_MODE_BINARY then 1 else 0)"
proof -
  from led_iter_total [OF assms] obtain a where a: "led_thread_iter m = Some a" "index_ok a"
    by blast
  from assms have same: "flow_index m mod 4 = flow_index m"
    by (simp add: index_ok_def)
  consider "g_led_mode m = LED_MODE_FLOW" | "g_led_mode m = LED_MODE_BINARY"
    | "g_led_mode m \<noteq> LED_MODE_FLOW" "g_led_mode m \<noteq> LED_MODE_BINARY" by blast
  then show ?thesis
  proof cases
    case 1
    with a have "led_mode_flow_step m = Some a" by (simp add: led_thread_iter_def)
    with 1 a flow_step_keeps_value [of m a] flow_step_advances [of m a] show ?thesis
      by (simp add: mode_none_other)
  next
    case 2
    with a have "a = led_mode_binary_step m"
      by (simp add: led_thread_iter_def mode_none_other)
    with 2 a same show ?thesis by (simp add: mode_none_other)
  next
    case 3
    with a have "a = rt_thread_mdelay LedThread 50 (leds_all_off m)"
      by (simp add: led_iter_default)
    with 3 a same show ?thesis by (simp add: off_render_keeps)
  qed
qed

lemma run_counters:
  assumes "index_ok m"
  shows "\<exists>m'. run es m = Some m' \<and> index_ok m' \<and>
           flow_index m' = (flow_index m + int (count_list (run_modes es m) LED_MODE_FLOW)) mod 4 \<and>
           binary_value m' = binary_value m + of_nat (count_list (run_modes es m) LED_MODE_BINARY)"
  using assms
proof (induction es arbitrary: m)
  case Nil
  then show ?case by (simp add: index_ok_def)
next
  case (Cons e es)
  show ?case
  proof (cases e)
    case LedIter
    from led_iter_counters [OF Cons.prems] obtain a where a: "led_thread_iter m = Some a"
      "index_ok a"
      "flow_index a = (flow_index m + (if g_led_mode m = LED_MODE_FLOW then 1 else 0)) mod 4"
      "binary_value a = binary_value m + (if g_led_mode m = LED_MODE_BINARY then 1 else 0)"
      by blast
    from Cons.IH [OF a(2)] obtain m' where m': "run es a = Some m'" "index_ok m'"
      "flow_index m' = (flow_index a + int (count_list (run_modes es a) LED_MODE_FLOW)) mod 4"
      "binary_value m' = binary_value a + of_nat (count_list (run_modes es a) LED_MODE_BINARY)"
      by blast
    have "flow_index m' =
        (flow_index m + int (count_list (run_modes (LedIter # es) m) LED_MODE_FLOW)) mod 4"
      unfolding m'(3) a(3) using a(1) by (simp add: mod_add_left_eq add.assoc)
    moreover have "binary_value m' =
        binary_value m + of_nat (count_list (run_modes (LedIter # es) m) LED_MODE_BINARY)"
      unfolding m'(4) a(4) using a(1) by simp
    ultimately show ?thesis
      using LedIter a(1) m'(1,2) by simp
  next
    case (KeyCheck b s)
    have "index_ok (button_check b s m)" using Cons.prems by simp
    from Cons.IH [OF this] KeyCheck show ?thesis by simp
  next
    case (KeyEnd s)
    have "index_ok (key_end s m)" using Cons.prems by simp
    from Cons.IH [OF this] KeyEnd show ?thesis by simp
  qed
qed

text \<open>
  Claim C6: a chase step changes the position index and not the binary counter, a binary
  step changes the counter and not the index, an Off render and a key scan change neither;
  so after any schedule the index has advanced by the number of chase iterations (modulo
  4) and the counter by the number of binary iterations (modulo 256), whatever modes came
  between them: nothing resets either value.
\<close>

theorem counters_retained_across_modes:
  assumes "index_ok m"
  shows "(\<forall>m'. led_mode_flow_step m = Some m' \<longrightarrow>
            binary_value m' = binary_value m \<and> flow_index m' = (flow_index m + 1) mod 4) \<and>
         flow_index (led_mode_binary_step m) = flow_index m \<and>
         binary_value (led_mode_binary_step m) = binary_value m + 1 \<and>
         flow_index (rt_thread_mdelay LedThread 50 (leds_all_off m)) = flow_index m \<and>
         binary_value (rt_thread_mdelay LedThread 50 (leds_all_off m)) = binary_value m \<and>
         flow_index (key_thread_iter s m) = flow_index m \<and>
         binary_value (key_thread_iter s m) = binary_value m \<and>
         (\<exists>m'. run es m = Some m' \<and>
            flow_index m' =
              (flow_index m + int (count_list (run_modes es m) LED_MODE_FLOW)) mod 4 \<and>
            binary_value m' =
              binary_value m + of_nat (count_list (run_modes es m) LED_MODE_BINARY))"
proof -
  have "\<forall>m'. led_mode_flow_step m = Some m' \<longrightarrow>
      binary_value m' = binary_value m \<and> flow_index m' = (flow_index m + 1) mod 4"
    using flow_step_keeps_value flow_step_advances by blast
  moreover have "\<exists>m'. run es m = Some m' \<and>
      flow_index m' = (flow_index m + int (count_list (run_modes es m) LED_MODE_FLOW)) mod 4 \<and>
      binary_value m' = binary_value m + of_nat (count_list (run_modes es m) LED_MODE_BINARY)"
    using run_counters [OF assms, of es] by blast
  ultimately show ?thesis
    by (simp add: off_render_keeps)
qed

theorem counters_retained_across_modes_witness:
  "index_ok (reset_low\<lparr>g_led_mode := LED_MODE_FLOW\<rparr>) \<and>
   run_modes (LedIter # scan press2 @ LedIter # scan press1 @ [LedIter])
     (reset_low\<lparr>g_led_mode := LED_MODE_FLOW\<rparr>) =
     [LED_MODE_FLOW, LED_MODE_BINARY, LED_MODE_FLOW] \<and>
   map_option flow_index (run (LedIter # scan press2 @ LedIter # scan press1 @ [LedIter])
     (reset_low\<lparr>g_led_mode := LED_MODE_FLOW\<rparr>)) = Some 2 \<and>
   map_option binary_value (run (LedIter # scan press2 @ LedIter # scan press1 @ [LedIter])
     (reset_low\<lparr>g_led_mode := LED_MODE_FLOW\<rparr>)) = Some 1"
proof -
  let ?m = "reset_low\<lparr>g_led_mode := LED_MODE_FLOW\<rparr>"
  let ?es = "LedIter # scan press2 @ LedIter # scan press1 @ [LedIter]"
  have h: "index_ok ?m"
    by (simp add: index_ok_def reset_low_def reset_state_def)
  have z: "flow_index ?m = 0" "binary_value ?m = 0"
    by (simp_all add: reset_low_def reset_state_def)
  have ms: "run_modes ?es ?m = [LED_MODE_FLOW, LED_MODE_BINARY, LED_MODE_FLOW]"
    by (simp add: scan_def led_thread_iter_def flow_step_Some index_ok_def binary_step_eq
        key_end_def key_check_defs platform_defs press1_def press2_def
        reset_low_def reset_state_def mode_none_other Let_def)
  from counters_retained_across_modes [OF h, of _ ?es] obtain m' :: machine where
    r: "run ?es ?m = Some m'" and
    i: "flow_index m' = (flow_index ?m + int (count_list (run_modes ?es ?m) LED_MODE_FLOW)) mod 4" and
    v: "binary_value m' = binary_value ?m + of_nat (count_list (run_modes ?es ?m) LED_MODE_BINARY)"
    by blast
  have "flow_index m' = 2"
    unfolding i ms z by (simp add: mode_none_other)
  moreover have "binary_value m' = 1"
    unfolding v ms z by (simp add: mode_none_other)
  ultimately show ?thesis
    using h ms r by simp
qed

section \<open>Start-up\<close>

lemmas thread_defs = rt_thread_create_def rt_thread_startup_def

lemma main_status: "fst (main ok m) = RT_EOK"
  by (simp add: main_def Let_def split: prod.splits)

lemma main_threads:
  "created (snd (main ok m)) = created m @
     [\<lparr>thread_name = ''led'', thread_entry = LedThread, stack_size = 1024, priority = 5, tick = 10\<rparr>,
      \<lparr>thread_name = ''key'', thread_entry = KeyThread, stack_size = 1024, priority = 6, tick = 10\<rparr>]"
  "started (snd (main ok m)) = started m @ filter (\<lambda>t. ok (thread_entry t))
     [\<lparr>thread_name = ''led'', thread_entry = LedThread, stack_size = 1024, priority = 5, tick = 10\<rparr>,
      \<lparr>thread_name = ''key'', thread_entry = KeyThread, stack_size = 1024, priority = 6, tick = 10\<rparr>]"
  by (simp_all add: main_def Let_def thread_defs platform_defs leds_all_off_eq)

lemma main_frame:
  "console (snd (main ok m)) = console m" "slept (snd (main ok m)) = slept m"
  "g_led_mode (snd (main ok m)) = g_led_mode m" "flow_index (snd (main ok m)) = flow_index m"
  "binary_value (snd (main ok m)) = binary_value m"
  by (simp_all add: main_def Let_def thread_defs platform_defs leds_all_off_eq)

lemma main_pins:
  "pin_cfg (snd (main ok m)) = (pin_cfg m)(LED1_PIN \<mapsto> PIN_MODE_OUTPUT,
     LED2_PIN \<mapsto> PIN_MODE_OUTPUT, LED3_PIN \<mapsto> PIN_MODE_OUTPUT, LED4_PIN \<mapsto> PIN_MODE_OUTPUT,
     KEY1_PIN \<mapsto> PIN_MODE_INPUT_PULLUP, KEY2_PIN \<mapsto> PIN_MODE_INPUT_PULLUP,
     KEY3_PIN \<mapsto> PIN_MODE_INPUT_PULLUP)"
  "all_low (snd (main ok m))"
  by (simp_all add: main_def Let_def thread_defs platform_defs leds_all_off_eq all_low_def
      led_levels_def led_pins_def)

text \<open>
  Claim C8: \<open>main\<close> configures the seven pins, switches the outputs off, asks once for each
  of the two threads and returns \<open>RT_EOK\<close> whatever the two creations yield; a thread
  whose creation yields null is not started, and nothing is printed, delayed or retried.
\<close>

theorem main_returns_ok_and_skips_failed_threads:
  "fst (main ok m) = RT_EOK \<and>
   pin_cfg (snd (main ok m)) = (pin_cfg m)(LED1_PIN \<mapsto> PIN_MODE_OUTPUT,
     LED2_PIN \<mapsto> PIN_MODE_OUTPUT, LED3_PIN \<mapsto> PIN_MODE_OUTPUT, LED4_PIN \<mapsto> PIN_MODE_OUTPUT,
     KEY1_PIN \<mapsto> PIN_MODE_INPUT_PULLUP, KEY2_PIN \<mapsto> PIN_MODE_INPUT_PULLUP,
     KEY3_PIN \<mapsto> PIN_MODE_INPUT_PULLUP) \<and>
   all_low (snd (main ok m)) \<and>
   created (snd (main ok m)) = created m @
     [\<lparr>thread_name = ''led'', thread_entry = LedThread, stack_size = 1024, priority = 5, tick = 10\<rparr>,
      \<lparr>thread_name = ''key'', thread_entry = KeyThread, stack_size = 1024, priority = 6, tick = 10\<rparr>] \<and>
   started (snd (main ok m)) = started m @ filter (\<lambda>t. ok (thread_entry t))
     [\<lparr>thread_name = ''led'', thread_entry = LedThread, stack_size = 1024, priority = 5, tick = 10\<rparr>,
      \<lparr>thread_name = ''key'', thread_entry = KeyThread, stack_size = 1024, priority = 6, tick = 10\<rparr>] \<and>
   console (snd (main ok m)) = console m \<and>
   slept (snd (main ok m)) = slept m \<and>
   g_led_mode (snd (main ok m)) = g_led_mode m"
  using main_status [of ok m] main_pins [of ok m] main_threads [of ok m] main_frame(1-3) [of ok m]
  by (intro conjI) assumption+

theorem main_returns_ok_and_skips_failed_threads_witness:
  "fst (main (\<lambda>t. t = KeyThread) reset_high) = RT_EOK \<and>
   all_low (snd (main (\<lambda>t. t = KeyThread) reset_high)) \<and>
   length (created (snd (main (\<lambda>t. t = KeyThread) reset_high))) = 2 \<and>
   map thread_entry (started (snd (main (\<lambda>t. t = KeyThread) reset_high))) = [KeyThread] \<and>
   console (snd (main (\<lambda>t. t = KeyThread) reset_high)) = []"
proof -
  have z: "created reset_high = []" "started reset_high = []" "console reset_high = []"
    by (simp_all add: reset_high_def reset_state_def)
  from main_returns_ok_and_skips_failed_threads [of "\<lambda>t. t = KeyThread" reset_high] z
  show ?thesis by simp
qed

section \<open>The mode invariant\<close>

lemma mode_valid_sys_step:
  assumes "mode_valid m" and "sys_step e m = Some m'"
  shows "mode_valid m'"
proof (cases e)
  case LedIter
  with assms led_iter_frame(1) [of m m'] show ?thesis
    by (simp add: mode_valid_def)
next
  case (KeyCheck b s)
  with assms(2) have "g_led_mode m' = (if confirmed b s m then mode_of_button b else g_led_mode m)"
    by (auto simp add: button_check_mode)
  with assms(1) show ?thesis
    by (cases b) (auto simp add: mode_valid_def)
next
  case (KeyEnd s)
  with assms show ?thesis
    by (auto simp add: mode_valid_def)
qed

lemma mode_valid_run:
  assumes "mode_valid m" and "run es m = Some m'"
  shows "mode_valid m'"
  using assms
proof (induction es arbitrary: m)
  case Nil
  then show ?case by simp
next
  case (Cons e es)
  from Cons.prems(2) obtain a where a: "sys_step e m = Some a" "run es a = Some m'"
    by (cases "sys_step e m") simp_all
  from Cons.IH [OF mode_valid_sys_step [OF Cons.prems(1) a(1)] a(2)] show ?case .
qed

lemma boot_ok:
  "mode_valid (reset_state lv)" "mode_valid (snd (main ok (reset_state lv)))"
  "index_ok (snd (main ok (reset_state lv)))"
  by (simp_all add: mode_valid_def index_ok_def main_frame reset_state_def)

text \<open>
  Claim C9: the mode variable is Off at reset and after \<open>main\<close>; each check of the key
  thread leaves it or stores the code of its own key, which is one of the three distinct
  codes; the end of the scan loop and the LED thread never write it; so every event keeps
  it one of the three codes, and every schedule started after \<open>main\<close> returns in a state
  where it is one of them.
\<close>

theorem mode_always_one_of_three:
  "g_led_mode (reset_state lv) = LED_MODE_NONE \<and>
   g_led_mode (snd (main ok (reset_state lv))) = LED_MODE_NONE \<and>
   distinct [LED_MODE_NONE, LED_MODE_FLOW, LED_MODE_BINARY] \<and>
   g_led_mode (button_check b s m) \<in> {g_led_mode m, mode_of_button b} \<and>
   mode_of_button b \<in> {LED_MODE_NONE, LED_MODE_FLOW, LED_MODE_BINARY} \<and>
   g_led_mode (key_end s m) = g_led_mode m \<and>
   (\<forall>m'. mode_valid m \<and> sys_step e m = Some m' \<longrightarrow> mode_valid m') \<and>
   (\<forall>m'. mode_valid m \<and> run es m = Some m' \<longrightarrow> mode_valid m') \<and>
   (\<exists>m'. run es (snd (main ok (reset_state lv))) = Some m' \<and> mode_valid m')"
proof -
  let ?b = "snd (main ok (reset_state lv))"
  from run_mode [OF boot_ok(3) [of ok lv], of es] obtain m' where m': "run es ?b = Some m'"
    by blast
  with mode_valid_run [OF boot_ok(2) [of ok lv]] have "\<exists>m'. run es ?b = Some m' \<and> mode_valid m'"
    by blast
  moreover have "\<forall>m'. mode_valid m \<and> sys_step e m = Some m' \<longrightarrow> mode_valid m'"
    using mode_valid_sys_step by blast
  moreover have "\<forall>m'. mode_valid m \<and> run es m = Some m' \<longrightarrow> mode_valid m'"
    using mode_valid_run by blast
  moreover have "g_led_mode ?b = LED_MODE_NONE" "g_led_mode (reset_state lv) = LED_MODE_NONE"
    by (simp_all add: main_frame reset_state_def)
  moreover have "distinct [LED_MODE_NONE, LED_MODE_FLOW, LED_MODE_BINARY]"
    by (simp add: mode_none_other)
  moreover have "g_led_mode (button_check b s m) \<in> {g_led_mode m, mode_of_button b}"
    "mode_of_button b \<in> {LED_MODE_NONE, LED_MODE_FLOW, LED_MODE_BINARY}"
    "g_led_mode (key_end s m) = g_led_mode m"
    by (simp add: button_check_mode, cases b, simp_all)
  ultimately show ?thesis
    by (intro conjI) assumption+
qed

theorem mode_always_one_of_three_witness:
  "mode_valid (reset_low\<lparr>g_led_mode := LED_MODE_FLOW\<rparr>) \<and>
   map_option g_led_mode
     (run (scan press2 @ [LedIter]) (reset_low\<lparr>g_led_mode := LED_MODE_FLOW\<rparr>)) =
     Some LED_MODE_BINARY \<and>
   map_option mode_valid
     (run (scan press2 @ [LedIter]) (reset_low\<lparr>g_led_mode := LED_MODE_FLOW\<rparr>)) = Some True"
proof -
  let ?m = "reset_low\<lparr>g_led_mode := LED_MODE_FLOW\<rparr>"
  let ?k = "key_thread_iter press2 ?m"
  let ?es = "scan press2 @ [LedIter]"
  have v: "mode_valid ?m"
    by (simp add: mode_valid_def)
  have k: "g_led_mode ?k = LED_MODE_BINARY"
    by (simp add: key_iter_mode confirmed_edges_def falling_edge_def last_wins_def press2_def
        reset_low_def reset_state_def)
  then have r: "run ?es ?m = Some (led_mode_binary_step ?k)"
    by (simp add: run_scan led_thread_iter_def mode_none_other)
  have g: "g_led_mode (led_mode_binary_step ?k) = LED_MODE_BINARY"
    using k by (simp add: binary_step_eq)
  from mode_always_one_of_three [where m = ?m and es = ?es] v r
  have "mode_valid (led_mode_binary_step ?k)"
    by blast
  with v r g show ?thesis by simp
qed

end
